theory Spec2Isabelle
  imports Complex_Main "HOL-Library.Word" "HOL-Library.Multiset" "HOL-Library.AList" "HOL-Library.Sublist"
begin

unbundle bit_operations_syntax

section \<open>Similarity metric (utilities.py)\<close>

text \<open>
  \<^verbatim>\<open>longest_common_substring_len(a, b)\<close> keeps two rows of the dynamic-programming table,
  \<^verbatim>\<open>prev\<close> and \<^verbatim>\<open>cur\<close>, both of length \<^verbatim>\<open>len(b) + 1\<close>, and the running maximum
  \<^verbatim>\<open>best\<close>. The two \<^verbatim>\<open>for\<close> loops run over \<^verbatim>\<open>range(1, len(..) + 1)\<close>; they are folds over
  the same index lists here, and every index the body reads or writes is in range.
  The function only compares characters, so it is modelled for lists of any type.
\<close>

definition lcs_inner_step :: "'a \<Rightarrow> 'a list \<Rightarrow> nat list \<Rightarrow> nat \<Rightarrow> nat list \<times> nat \<Rightarrow> nat list \<times> nat" where
  "lcs_inner_step ai b prev j cb =
     (case cb of (cur, best) \<Rightarrow>
        if ai = b ! (j - 1) then
          (let cur' = cur[j := prev ! (j - 1) + 1]
           in (cur', if cur' ! j > best then cur' ! j else best))
        else (cur, best))"

definition lcs_outer_step :: "'a list \<Rightarrow> 'a list \<Rightarrow> nat \<Rightarrow> nat list \<times> nat \<Rightarrow> nat list \<times> nat" where
  "lcs_outer_step a b i pb =
     (case pb of (prev, best) \<Rightarrow>
        fold (lcs_inner_step (a ! (i - 1)) b prev) [1..<length b + 1]
          (replicate (length b + 1) 0, best))"

definition lcs_table :: "'a list \<Rightarrow> 'a list \<Rightarrow> nat" where
  "lcs_table a b =
     snd (fold (lcs_outer_step a b) [1..<length a + 1] (replicate (length b + 1) 0, 0))"

definition longest_common_substring_len :: "'a list \<Rightarrow> 'a list \<Rightarrow> nat" where
  "longest_common_substring_len a b =
     (if a = [] \<or> b = [] then 0
      else if length b > length a then lcs_table b a
      else lcs_table a b)"

subsection \<open>What the table holds\<close>

text \<open>
  \<open>common_prefix_len\<close> is the length of the longest common prefix of two lists; cell
  \<open>(i, j)\<close> of the table is that length for the reversed prefixes of length \<open>i\<close> and
  \<open>j\<close>, that is the longest common suffix of \<open>take i a\<close> and \<open>take j b\<close>.
\<close>

fun common_prefix_len :: "'a list \<Rightarrow> 'a list \<Rightarrow> nat" where
  "common_prefix_len (x # xs) (y # ys) = (if x = y then Suc (common_prefix_len xs ys) else 0)"
| "common_prefix_len _ _ = 0"

definition lcs_cell :: "'a list \<Rightarrow> 'a list \<Rightarrow> nat \<Rightarrow> nat \<Rightarrow> nat" where
  "lcs_cell a b i j = common_prefix_len (rev (take i a)) (rev (take j b))"

text \<open>
  Loop invariants: after the inner loop has handled the columns \<open>1..k\<close>, and after
  the outer loop has handled the rows \<open>1..i\<close>. \<open>is_longest a b m\<close> says that
  \<open>m\<close> is the largest cell of the whole table.
\<close>

definition inner_inv :: "'a \<Rightarrow> 'a list \<Rightarrow> nat list \<Rightarrow> nat \<Rightarrow> nat \<Rightarrow> nat list \<times> nat \<Rightarrow> bool" where
  "inner_inv ai b prev best0 k cb =
     (case cb of (cur, best) \<Rightarrow>
        length cur = length b + 1 \<and>
        (\<forall>j \<le> length b. cur ! j = (if 1 \<le> j \<and> j \<le> k \<and> ai = b ! (j - 1) then prev ! (j - 1) + 1 else 0)) \<and>
        best0 \<le> best \<and>
        (\<forall>j \<le> k. cur ! j \<le> best) \<and>
        (best = best0 \<or> (\<exists>j \<le> k. best = cur ! j)))"

definition outer_inv :: "'a list \<Rightarrow> 'a list \<Rightarrow> nat \<Rightarrow> nat list \<times> nat \<Rightarrow> bool" where
  "outer_inv a b i pb =
     (case pb of (prev, best) \<Rightarrow>
        length prev = length b + 1 \<and>
        (\<forall>j \<le> length b. prev ! j = lcs_cell a b i j) \<and>
        (\<forall>i' \<le> i. \<forall>j \<le> length b. lcs_cell a b i' j \<le> best) \<and>
        (best = 0 \<or> (\<exists>i' \<le> i. \<exists>j \<le> length b. best = lcs_cell a b i' j)))"

definition is_longest :: "'a list \<Rightarrow> 'a list \<Rightarrow> nat \<Rightarrow> bool" where
  "is_longest a b m =
     ((\<forall>i \<le> length a. \<forall>j \<le> length b. lcs_cell a b i j \<le> m) \<and>
      (\<exists>i \<le> length a. \<exists>j \<le> length b. m = lcs_cell a b i j))"

section \<open>Strings and regular expressions (extract-kindle-clippings.py)\<close>

text \<open>
  A Python \<^verbatim>\<open>str\<close> is modelled as a \<open>string\<close>, a list of 8-bit characters read as the
  code points U+0000 to U+00FF, so \<open>length\<close> is Python's \<^verbatim>\<open>len\<close> on such text.
  \<^verbatim>\<open>str.strip()\<close> and the regular-expression class \<^verbatim>\<open>\s\<close> use the same test,
  \<^verbatim>\<open>str.isspace\<close>; in this range it holds for the twelve characters below. \<^verbatim>\<open>\d\<close>
  holds for the ten ASCII digits only.
\<close>

definition is_space :: "char \<Rightarrow> bool" where
  "is_space c = (c \<in> set [CHR 0x09, CHR 0x0A, CHR 0x0B, CHR 0x0C, CHR 0x0D, CHR 0x1C,
                            CHR 0x1D, CHR 0x1E, CHR 0x1F, CHR 0x20, CHR 0x85, CHR 0xA0])"

definition is_digit :: "char \<Rightarrow> bool" where
  "is_digit c = (c \<in> set ''0123456789'')"


definition strip :: "string \<Rightarrow> string" where
  "strip s = rev (dropWhile is_space (rev (dropWhile is_space s)))"

text \<open>
  \<^verbatim>\<open>s.replace("  ", " ")\<close>: one pass from the left over non-overlapping occurrences of two
  spaces.
\<close>

fun replace_double_space :: "string \<Rightarrow> string" where
  "replace_double_space (a # b # s) =
     (if a = CHR '' '' \<and> b = CHR '' '' then CHR '' '' # replace_double_space s
      else a # replace_double_space (b # s))"
| "replace_double_space s = s"

text \<open>\<^verbatim>\<open>sub in s\<close> for strings: \<open>sub\<close> occurs in \<open>s\<close> as a contiguous piece.\<close>

fun contains :: "string \<Rightarrow> string \<Rightarrow> bool" where
  "contains [] sub = (sub = [])"
| "contains (c # s) sub = (prefix sub (c # s) \<or> contains s sub)"


text \<open>\<^verbatim>\<open>int(s)\<close> on a non-empty string of ASCII digits.\<close>

definition digit_val :: "char \<Rightarrow> int" where
  "digit_val c = int (of_char c) - 48"

definition int_of_digits :: "string \<Rightarrow> int" where
  "int_of_digits s = foldl (\<lambda>n c. 10 * n + digit_val c) 0 s"

text \<open>
  \<^verbatim>\<open>f.readline()\<close> on the text that is still to be read: the line with its newline, and the
  rest; the empty string at the end of the file.
\<close>

definition readline :: "string \<Rightarrow> string \<times> string" where
  "readline s =
     (case dropWhile (\<lambda>c. c \<noteq> CHR 0x0A) s of
        [] \<Rightarrow> (s, [])
      | n # rest \<Rightarrow> (takeWhile (\<lambda>c. c \<noteq> CHR 0x0A) s @ [n], rest))"

subsection \<open>The compiled patterns\<close>

text \<open>
  Each pattern is modelled by the function that returns what the script takes from it:
  the groups of the first match (\<^verbatim>\<open>findall(..)[0]\<close>, \<^verbatim>\<open>search(..)\<close>), or \<open>None\<close> when
  there is no match. The lines they are applied to come from \<^verbatim>\<open>readline().strip()\<close> and
  hold no newline, so \<^verbatim>\<open>.\<close> matches every character of them and \<^verbatim>\<open>$\<close> only their end.

  \<^verbatim>\<open>regex_title = ^(.*)\((.*)\)$\<close>: the line ends with \<^verbatim>\<open>)\<close> and has a \<^verbatim>\<open>(\<close> before
  it; the first group is greedy, so it runs up to the last \<^verbatim>\<open>(\<close>.
\<close>

definition regex_title :: "string \<Rightarrow> (string \<times> string) option" where
  "regex_title key =
     (if key \<noteq> [] \<and> last key = CHR '')'' \<and> CHR ''('' \<in> set (butlast key) then
        (let body = butlast key;
             g2 = rev (takeWhile (\<lambda>c. c \<noteq> CHR ''('') (rev body));
             g1 = take (length body - length g2 - 1) body
         in Some (g1, g2))
      else None)"

text \<open>
  \<^verbatim>\<open>regex_info = ^- Your (\S+) (.*)[\s|]+Added on\s+(.+)$\<close>. After \<^verbatim>\<open>- Your \<close> comes the
  longest run of non-space characters, then one space character. The greedy \<^verbatim>\<open>(.*)\<close>
  ends one character before the last place \<open>q\<close> where \<^verbatim>\<open>Added on\<close> stands behind a white
  space or \<^verbatim>\<open>|\<close> and is followed by white space and at least one more character
  (\<open>info_date\<close>, the third group).
\<close>

definition info_date :: "string \<Rightarrow> string option" where
  "info_date s =
     (let ws = takeWhile is_space s; d = dropWhile is_space s
      in if ws = [] then None
         else if d \<noteq> [] then Some d
         else if length ws \<ge> 2 then Some [last ws]
         else None)"

definition info_tail_ok :: "string \<Rightarrow> nat \<Rightarrow> bool" where
  "info_tail_ok r q =
     ((is_space (r ! (q - 1)) \<or> r ! (q - 1) = CHR ''|'') \<and>
      prefix ''Added on'' (drop q r) \<and>
      info_date (drop (q + 8) r) \<noteq> None)"

definition regex_info :: "string \<Rightarrow> (string \<times> string \<times> string) option" where
  "regex_info line =
     (if prefix ''- Your '' line then
        (let r0 = drop 7 line;
             ty = takeWhile (\<lambda>c. \<not> is_space c) r0;
             r1 = dropWhile (\<lambda>c. \<not> is_space c) r0
         in if ty \<noteq> [] \<and> prefix '' '' r1 then
              (let r = drop 1 r1
               in case find (info_tail_ok r) (rev [1..<length r]) of
                    None \<Rightarrow> None
                  | Some q \<Rightarrow>
                      (case info_date (drop (q + 8) r) of
                         None \<Rightarrow> None
                       | Some d \<Rightarrow> Some (ty, take (q - 1) r, d)))
            else None)
      else None)"

text \<open>
  \<^verbatim>\<open>regex_loc = location ([\d\-]+)\<close> and \<^verbatim>\<open>regex_page = page ([\d\-]+)\<close>: the leftmost
  place where the word and one space are followed by a digit or a dash; the group is the
  longest run of digits and dashes there.
\<close>

fun word_then_digits :: "string \<Rightarrow> string \<Rightarrow> string option" where
  "word_then_digits w [] = None"
| "word_then_digits w (c # s) =
     (let g = takeWhile (\<lambda>x. is_digit x \<or> x = CHR ''-'') (drop (length w) (c # s))
      in if prefix w (c # s) \<and> g \<noteq> [] then Some g else word_then_digits w s)"

definition regex_loc :: "string \<Rightarrow> string option" where
  "regex_loc s = word_then_digits ''location '' s"

definition regex_page :: "string \<Rightarrow> string option" where
  "regex_page s = word_then_digits ''page '' s"

text \<open>\<^verbatim>\<open>regex_num = (\d+)\<close>: the first run of digits.\<close>

definition regex_num :: "string \<Rightarrow> string option" where
  "regex_num s =
     (let g = takeWhile is_digit (dropWhile (\<lambda>c. \<not> is_digit c) s)
      in if g = [] then None else Some g)"

text \<open>
  \<^verbatim>\<open>regex_numrange = (\d+)\-(\d+)\<close>: the leftmost place where a run of digits, a dash and
  a digit follow one another; both groups are the longest runs.
\<close>

fun regex_numrange :: "string \<Rightarrow> (string \<times> string) option" where
  "regex_numrange [] = None"
| "regex_numrange (c # s) =
     (let g1 = takeWhile is_digit (c # s);
          r = dropWhile is_digit (c # s);
          g2 = takeWhile is_digit (drop 1 r)
      in if g1 \<noteq> [] \<and> prefix ''-'' r \<and> g2 \<noteq> [] then Some (g1, g2)
         else regex_numrange s)"


section \<open>The content hash\<close>

text \<open>
  \<^verbatim>\<open>note_hash = hashlib.sha256(note_text.encode("utf8")).hexdigest()[:8]\<close>. The three
  library functions are written out: the UTF-8 encoding of the code points below U+0100
  (one byte below U+0080, two bytes from there on), SHA-256 on bytes (FIPS 180-4, with
  32-bit words that wrap around), and the lowercase hexadecimal rendering of the digest.
\<close>

definition utf8_char :: "char \<Rightarrow> 8 word list" where
  "utf8_char c =
     (let n = (of_char c :: nat)
      in if n < 128 then [of_nat n]
         else [of_nat (192 + n div 64), of_nat (128 + n mod 64)])"

definition encode_utf8 :: "string \<Rightarrow> 8 word list" where
  "encode_utf8 s = concat (map utf8_char s)"

text \<open>
  The round constants, in decimal: the first 32 bits of the fractional parts of the cube
  roots of the first 64 primes. The initial state holds those of the square roots of the
  first 8 primes.
\<close>

definition sha_K :: "32 word list" where
  "sha_K =
    [1116352408, 1899447441, 3049323471, 3921009573, 961987163, 1508970993,
     2453635748, 2870763221, 3624381080, 310598401, 607225278, 1426881987,
     1925078388, 2162078206, 2614888103, 3248222580, 3835390401, 4022224774,
     264347078, 604807628, 770255983, 1249150122, 1555081692, 1996064986,
     2554220882, 2821834349, 2952996808, 3210313671, 3336571891, 3584528711,
     113926993, 338241895, 666307205, 773529912, 1294757372, 1396182291,
     1695183700, 1986661051, 2177026350, 2456956037, 2730485921, 2820302411,
     3259730800, 3345764771, 3516065817, 3600352804, 4094571909, 275423344,
     430227734, 506948616, 659060556, 883997877, 958139571, 1322822218,
     1537002063, 1747873779, 1955562222, 2024104815, 2227730452, 2361852424,
     2428436474, 2756734187, 3204031479, 3329325298]"

type_synonym sha_state =
  "32 word \<times> 32 word \<times> 32 word \<times> 32 word \<times> 32 word \<times> 32 word \<times> 32 word \<times> 32 word"

definition sha_init :: sha_state where
  "sha_init = (1779033703, 3144134277, 1013904242, 2773480762,
               1359893119, 2600822924, 528734635, 1541459225)"

definition sha_pad :: "8 word list \<Rightarrow> 8 word list" where
  "sha_pad m =
     (let l = length m;
          z = (64 - (l + 9) mod 64) mod 64;
          bits = (of_nat (8 * l) :: 64 word)
      in m @ [0x80] @ replicate z 0 @
         map (\<lambda>i. ucast (drop_bit (8 * (7 - i)) bits)) [0..<8])"

fun sha_blocks :: "nat \<Rightarrow> 8 word list \<Rightarrow> 8 word list list" where
  "sha_blocks 0 m = []"
| "sha_blocks (Suc n) m = take 64 m # sha_blocks n (drop 64 m)"

definition be32 :: "8 word list \<Rightarrow> 32 word" where
  "be32 bs = foldl (\<lambda>w b. push_bit 8 w OR ucast b) 0 bs"

definition small_sigma0 :: "32 word \<Rightarrow> 32 word" where
  "small_sigma0 x = word_rotr 7 x XOR word_rotr 18 x XOR drop_bit 3 x"

definition small_sigma1 :: "32 word \<Rightarrow> 32 word" where
  "small_sigma1 x = word_rotr 17 x XOR word_rotr 19 x XOR drop_bit 10 x"

definition big_sigma0 :: "32 word \<Rightarrow> 32 word" where
  "big_sigma0 x = word_rotr 2 x XOR word_rotr 13 x XOR word_rotr 22 x"

definition big_sigma1 :: "32 word \<Rightarrow> 32 word" where
  "big_sigma1 x = word_rotr 6 x XOR word_rotr 11 x XOR word_rotr 25 x"

definition sha_schedule :: "8 word list \<Rightarrow> 32 word list" where
  "sha_schedule block =
     fold (\<lambda>t w. w @ [small_sigma1 (w ! (t - 2)) + w ! (t - 7) +
                        small_sigma0 (w ! (t - 15)) + w ! (t - 16)])
       [16..<64]
       (map (\<lambda>i. be32 (take 4 (drop (4 * i) block))) [0..<16])"

definition sha_round :: "32 word list \<Rightarrow> nat \<Rightarrow> sha_state \<Rightarrow> sha_state" where
  "sha_round w t s =
     (case s of (a, b, c, d, e, f, g, h) \<Rightarrow>
        (let t1 = h + big_sigma1 e + ((e AND f) XOR (NOT e AND g)) + sha_K ! t + w ! t;
             t2 = big_sigma0 a + ((a AND b) XOR (a AND c) XOR (b AND c))
         in (t1 + t2, a, b, c, d + t1, e, f, g)))"

definition sha_compress :: "8 word list \<Rightarrow> sha_state \<Rightarrow> sha_state" where
  "sha_compress block s =
     (case s of (a, b, c, d, e, f, g, h) \<Rightarrow>
        (case fold (sha_round (sha_schedule block)) [0..<64] s of
           (a', b', c', d', e', f', g', h') \<Rightarrow>
             (a + a', b + b', c + c', d + d', e + e', f + f', g + g', h + h')))"

definition sha256 :: "8 word list \<Rightarrow> sha_state" where
  "sha256 m =
     (let p = sha_pad m in fold sha_compress (sha_blocks (length p div 64) p) sha_init)"

definition hex_digit :: "32 word \<Rightarrow> char" where
  "hex_digit x = ''0123456789abcdef'' ! unat (x AND 0xF)"

definition hex32 :: "32 word \<Rightarrow> string" where
  "hex32 w = map (\<lambda>i. hex_digit (drop_bit (4 * (7 - i)) w)) [0..<8]"

definition hexdigest :: "sha_state \<Rightarrow> string" where
  "hexdigest s =
     (case s of (a, b, c, d, e, f, g, h) \<Rightarrow>
        hex32 a @ hex32 b @ hex32 c @ hex32 d @ hex32 e @ hex32 f @ hex32 g @ hex32 h)"

definition note_hash_of :: "string \<Rightarrow> string" where
  "note_hash_of note_text = take 8 (hexdigest (sha256 (encode_utf8 note_text)))"

section \<open>The record parser and the book tables\<close>

text \<open>
  The script keeps its data in eight module-level dictionaries. The four \<^verbatim>\<open>pub_*\<close>
  dictionaries are keyed by the header line of a book and are iterated later, so they are
  association lists in insertion order (\<open>AList.update\<close> replaces the value of a key that
  is present and appends a new key at the end, as a Python \<^verbatim>\<open>dict\<close> does). The other four
  are keyed by the note hash and are only looked up, so they are maps (\<^verbatim>\<open>notes\<close> is
  \<open>notes_by_hash\<close> here).
\<close>

record tables =
  pub_title :: "(string \<times> string) list"
  pub_author :: "(string \<times> string) list"
  pub_notes :: "(string \<times> string list) list"
  pub_hashes :: "(string \<times> string list) list"
  notes_by_hash :: "string \<rightharpoonup> string"
  locations :: "string \<rightharpoonup> string"
  types :: "string \<rightharpoonup> string"
  dates :: "string \<rightharpoonup> string"

definition empty_tables :: tables where
  "empty_tables =
     \<lparr>pub_title = [], pub_author = [], pub_notes = [], pub_hashes = [],
      notes_by_hash = Map.empty, locations = Map.empty, types = Map.empty, dates = Map.empty\<rparr>"

text \<open>
  How a run of a part of the script ends: it returns a value; or an uncaught exception
  ends the whole run (with the exception goes the text that tells where it came from: the
  line printed just before, or the missing key); or it never returns.
\<close>

datatype error = IndexError | KeyError

datatype 'a run = Returns 'a | Raises error string | Hangs

definition note_sep :: string where
  "note_sep = ''==========''"

text \<open>
  The inner loop \<^verbatim>\<open>while line != note_sep\<close>, with the \<^verbatim>\<open>readline().strip()\<close> before each
  test. At the end of the file \<^verbatim>\<open>readline()\<close> returns the empty string for ever, which is
  not the separator: the loop never ends, and the model returns \<open>None\<close>.
\<close>

lemma readline_shorter: "stream \<noteq> [] \<Longrightarrow> length (snd (readline stream)) < length stream"
proof (cases "dropWhile (\<lambda>c. c \<noteq> CHR 0x0A) stream")
  case Nil
  assume "stream \<noteq> []"
  then show ?thesis unfolding readline_def Nil by simp
next
  case (Cons n rest')
  have "length (dropWhile (\<lambda>c. c \<noteq> CHR 0x0A) stream) \<le> length stream"
    by (rule length_dropWhile_le)
  then show ?thesis unfolding readline_def Cons by simp
qed

function read_text :: "string \<Rightarrow> string \<Rightarrow> (string \<times> string) option" where
  "read_text note_text stream =
     (if stream = [] then None
      else (case readline stream of
              (l, rest) \<Rightarrow>
                if strip l = note_sep then Some (note_text, rest)
                else read_text (note_text @ strip l @ [CHR 0x0A]) rest))"
  by pat_completeness auto
termination
  apply (relation "measure (\<lambda>(note_text, stream). length stream)")
   apply simp
  subgoal for note_text stream l rest
    using readline_shorter [of stream] by (metis in_measure case_prod_conv snd_conv)
  done

definition locstr_of :: "string \<Rightarrow> string \<Rightarrow> string" where
  "locstr_of note_loc note_page =
     (let locstr = (if note_loc \<noteq> [] then ''loc. '' @ note_loc else [])
      in if note_page \<noteq> [] then
           (if note_loc \<noteq> [] then locstr @ '', '' else locstr) @ ''p.'' @ note_page
         else locstr)"

text \<open>\<^verbatim>\<open>note_text.strip().replace("  ", " ")\<close>\<close>

definition normalize_text :: "string \<Rightarrow> string" where
  "normalize_text note_text = replace_double_space (strip note_text)"

text \<open>
  \<^verbatim>\<open>dateutil.parser.parse\<close> is not part of the repository: \<open>parse_date\<close> stands for
  \<^verbatim>\<open>str(parse(date))\<close>, with \<open>None\<close> when \<^verbatim>\<open>parse\<close> raises.

  \<open>store_note\<close> is the second half of the body of the main loop, from
  \<^verbatim>\<open>if key not in pub_notes\<close> to \<^verbatim>\<open>dates[note_hash] = datestr\<close>.
\<close>

definition append_at :: "string \<Rightarrow> 'a \<Rightarrow> (string \<times> 'a list) list \<Rightarrow> (string \<times> 'a list) list" where
  "append_at key v d =
     AList.update key ((case map_of d key of None \<Rightarrow> [] | Some vs \<Rightarrow> vs) @ [v]) d"

definition store_note ::
  "tables \<Rightarrow> string \<Rightarrow> string \<Rightarrow> string \<Rightarrow> string \<Rightarrow> string \<Rightarrow> string \<Rightarrow> string \<Rightarrow> string \<Rightarrow> tables" where
  "store_note t key title author note_text note_hash locstr note_type datestr =
     t\<lparr>pub_title := AList.update key (strip title) (pub_title t),
       pub_author := AList.update key (strip author) (pub_author t),
       pub_notes := append_at key note_text (pub_notes t),
       pub_hashes := append_at key note_hash (pub_hashes t),
       notes_by_hash := (notes_by_hash t)(note_hash \<mapsto> note_text),
       locations := (locations t)(note_hash \<mapsto> locstr),
       types := (types t)(note_hash \<mapsto> note_type),
       dates := (dates t)(note_hash \<mapsto> datestr)\<rparr>"

text \<open>
  One pass through the body of \<^verbatim>\<open>while line:\<close>, for the header \<open>key\<close> that was just read.
  \<^verbatim>\<open>regex_info.findall(line)[0]\<close> raises \<^verbatim>\<open>IndexError\<close> when the information line does not
  match; the line was printed just before.
\<close>

definition parse_record ::
  "(string \<Rightarrow> string option) \<Rightarrow> tables \<Rightarrow> string \<Rightarrow> string \<Rightarrow> (tables \<times> string) run" where
  "parse_record parse_date t key stream =
     (case readline stream of
        (l1, s1) \<Rightarrow>
          (case regex_info (strip l1) of
             None \<Rightarrow> Raises IndexError (strip l1)
           | Some (note_type, location, date) \<Rightarrow>
               (let (title, author) =
                      (case regex_title key of Some ta \<Rightarrow> ta | None \<Rightarrow> (key, ''Unknown''));
                    note_loc = (case regex_loc location of Some g \<Rightarrow> g | None \<Rightarrow> []);
                    note_page = (case regex_page location of Some g \<Rightarrow> g | None \<Rightarrow> [])
                in case read_text [] (snd (readline s1)) of
                     None \<Rightarrow> Hangs
                   | Some (raw, s3) \<Rightarrow>
                       (let note_text = normalize_text raw;
                            note_hash = note_hash_of note_text;
                            locstr = locstr_of note_loc note_page;
                            datestr = (case parse_date date of Some d \<Rightarrow> d | None \<Rightarrow> date)
                        in Returns
                             (store_note t key title author note_text note_hash locstr
                                note_type datestr, s3)))))"

text \<open>
  The main loop \<^verbatim>\<open>while line:\<close>. Each pass starts with the header line that the
  \<^verbatim>\<open>readline().strip()\<close> before the loop, or at the end of the pass before, has read; an
  empty header ends the loop. The loop ends on every input, since each pass that returns
  has consumed the header line.
\<close>

lemma readline_le: "length (snd (readline stream)) \<le> length stream"
proof (cases "stream = []")
  case True
  then show ?thesis by (simp add: readline_def)
next
  case False
  then show ?thesis using readline_shorter [of stream] by simp
qed

lemma read_text_shorter: "read_text nt s = Some (t, r) \<Longrightarrow> length r < length s"
proof (induction nt s rule: read_text.induct)
  case (1 note_text stream)
  show ?case
  proof (cases "stream = []")
    case True
    then show ?thesis using "1.prems" by simp
  next
    case False
    obtain l rest where rl: "readline stream = (l, rest)" by (cases "readline stream")
    have lt: "length rest < length stream"
      using readline_shorter [OF False] rl by simp
    show ?thesis
    proof (cases "strip l = note_sep")
      case True
      then have "r = rest" using "1.prems" False rl by simp
      then show ?thesis using lt by simp
    next
      case F: False
      then have "read_text (note_text @ strip l @ [CHR 0x0A]) rest = Some (t, r)"
        using "1.prems" False rl by simp
      then have "length r < length rest"
        using "1.IH" [OF False rl [symmetric] F] by simp
      then show ?thesis using lt by simp
    qed
  qed
qed

lemma parse_record_shorter:
  assumes "parse_record pd t key s = Returns (t', s')"
  shows "length s' \<le> length s"
proof -
  obtain l1 s1 where rl: "readline s = (l1, s1)" by (cases "readline s")
  have s1: "length s1 \<le> length s" using readline_le [of s] rl by simp
  have "\<exists>raw. read_text [] (snd (readline s1)) = Some (raw, s')"
  proof (cases "regex_info (strip l1)")
    case None
    then show ?thesis using assms rl by (simp add: parse_record_def)
  next
    case (Some g)
    obtain ty loc d where g: "g = (ty, loc, d)" by (cases g)
    show ?thesis
    proof (cases "read_text [] (snd (readline s1))")
      case None
      then show ?thesis using assms rl Some g
        by (simp add: parse_record_def Let_def split: prod.splits)
    next
      case S: (Some rs)
      obtain raw s3 where rs: "rs = (raw, s3)" by (cases rs)
      have "s3 = s'" using assms rl Some g S rs
        by (simp add: parse_record_def Let_def split: prod.splits)
      then show ?thesis using S rs by simp
    qed
  qed
  then obtain raw where "read_text [] (snd (readline s1)) = Some (raw, s')" by blast
  then have "length s' < length (snd (readline s1))" by (rule read_text_shorter)
  then show ?thesis using readline_le [of s1] s1 by simp
qed

lemma strip_Nil: "strip [] = []"
  by (simp add: strip_def)

function parse_loop :: "(string \<Rightarrow> string option) \<Rightarrow> tables \<Rightarrow> string \<Rightarrow> tables run" where
  "parse_loop parse_date t stream =
     (case readline stream of
        (l, s1) \<Rightarrow>
          if strip l = [] then Returns t
          else (case parse_record parse_date t (strip l) s1 of
                  Returns (t', s2) \<Rightarrow> parse_loop parse_date t' s2
                | Raises e line \<Rightarrow> Raises e line
                | Hangs \<Rightarrow> Hangs))"
  by pat_completeness auto
termination
  apply (relation "measure (\<lambda>(parse_date, t, stream). length stream)")
   apply simp
  subgoal premises prems for parse_date t stream l s1 r t' s2
  proof -
    have rl: "readline stream = (l, s1)" and ne: "strip l \<noteq> []"
      and pr: "parse_record parse_date t (strip l) s1 = Returns (t', s2)"
      using prems by auto
    have "stream \<noteq> []"
    proof
      assume "stream = []"
      then have "l = []" using rl by (simp add: readline_def)
      then show False using ne by (simp add: strip_Nil)
    qed
    then have "length s1 < length stream"
      using readline_shorter [of stream] rl by simp
    moreover have "length s2 \<le> length s1"
      using parse_record_shorter [OF pr] .
    ultimately show ?thesis by simp
  qed
  done

text \<open>
  The script opens the clippings file, skips its first character (\<^verbatim>\<open>mc.read(1)\<close>, the
  byte-order mark) and runs the loop. The \<^verbatim>\<open>replace\<close> that removes further byte-order
  marks from the first header changes no text of the code points modelled here.
\<close>

definition parse_clippings :: "(string \<Rightarrow> string option) \<Rightarrow> string \<Rightarrow> tables run" where
  "parse_clippings parse_date content = parse_loop parse_date empty_tables (drop 1 content)"

section \<open>Chronology reconciliation and overlap detection\<close>

text \<open>
  The sort keys of the two branches: the first group of the first \<^verbatim>\<open>digits-digits\<close> match
  in the location string, or the first run of digits, as an integer; \<open>-1\<close> when there is
  no match.
\<close>

definition range_key :: "string \<Rightarrow> int" where
  "range_key loc = (case regex_numrange loc of Some (g1, g2) \<Rightarrow> int_of_digits g1 | None \<Rightarrow> - 1)"

definition page_key :: "string \<Rightarrow> int" where
  "page_key loc = (case regex_num loc of Some g \<Rightarrow> int_of_digits g | None \<Rightarrow> - 1)"


text \<open>
  The body of \<^verbatim>\<open>for i in range(len(pub_hashes[k]) - 1)\<close> for the pair \<open>hash1, hash2\<close>;
  the result tells whether the warning is printed. A location string without a range
  makes \<^verbatim>\<open>s1.group\<close> raise \<^verbatim>\<open>AttributeError\<close>, which the \<^verbatim>\<open>try\<close> turns into \<^verbatim>\<open>continue\<close>.
  The test \<^verbatim>\<open>len_lcs > 0.4 * max(len(str1), len(str2))\<close> is stated over the reals; the
  rounding of the floating-point product does not change its outcome for lengths below
  \<open>2 ^ 50\<close>, since \<open>0.4 * n\<close> is either an integer, and then computed exactly, or at
  least \<open>0.2\<close> away from every integer.
\<close>

definition overlap_pair :: "tables \<Rightarrow> string \<Rightarrow> string \<Rightarrow> bool run" where
  "overlap_pair t hash1 hash2 =
     (case notes_by_hash t hash1 of None \<Rightarrow> Raises KeyError hash1 | Some str1 \<Rightarrow>
      case notes_by_hash t hash2 of None \<Rightarrow> Raises KeyError hash2 | Some str2 \<Rightarrow>
      case types t hash1 of None \<Rightarrow> Raises KeyError hash1 | Some type1 \<Rightarrow>
      if type1 = ''Bookmark'' then Returns False else
      case types t hash2 of None \<Rightarrow> Raises KeyError hash2 | Some type2 \<Rightarrow>
      if type2 = ''Bookmark'' \<or> max (length str1) (length str2) < 52 then Returns False else
      case locations t hash1 of None \<Rightarrow> Raises KeyError hash1 | Some loc1 \<Rightarrow>
      case locations t hash2 of None \<Rightarrow> Raises KeyError hash2 | Some loc2 \<Rightarrow>
      case regex_numrange loc1 of None \<Rightarrow> Returns False | Some (a1, b1) \<Rightarrow>
      case regex_numrange loc2 of None \<Rightarrow> Returns False | Some (a2, b2) \<Rightarrow>
        (let range1 = [int_of_digits a1, int_of_digits b1];
             range2 = [int_of_digits a2, int_of_digits b2]
         in if range1 ! 0 \<in> set range2 \<or> range1 ! 1 \<in> set range2 then
              (let len_lcs = longest_common_substring_len str1 str2
               in Returns (real len_lcs > 0.4 * real (max (length str1) (length str2))))
            else Returns False))"

text \<open>
  The loop over the adjacent pairs of the sorted list. What it prints is modelled by the
  list of the pairs it prints a warning for; it changes no table.
\<close>

fun overlap_loop :: "tables \<Rightarrow> string list \<Rightarrow> (string \<times> string) list run" where
  "overlap_loop t (hash1 # hash2 # hs) =
     (case overlap_pair t hash1 hash2 of
        Raises e k \<Rightarrow> Raises e k
      | Hangs \<Rightarrow> Hangs
      | Returns flag \<Rightarrow>
          (case overlap_loop t (hash2 # hs) of
             Returns fl \<Rightarrow> Returns ((if flag then [(hash1, hash2)] else []) @ fl)
           | Raises e k \<Rightarrow> Raises e k
           | Hangs \<Rightarrow> Hangs))"
| "overlap_loop t hs = Returns []"




section \<open>The existing-hash index, the dedup gate and the writer\<close>
















section \<open>Predicates used in the statements\<close>

text \<open>
  \<open>known t h\<close>: the hash \<open>h\<close> is a key of the four hash-keyed dictionaries, as every hash
  is that the parser has put into a list of \<^verbatim>\<open>pub_hashes\<close>.
\<close>

definition known :: "tables \<Rightarrow> string \<Rightarrow> bool" where
  "known t h =
     (notes_by_hash t h \<noteq> None \<and> locations t h \<noteq> None \<and> types t h \<noteq> None \<and> dates t h \<noteq> None)"

text \<open>The hash lists that belong to the note lists of \<^verbatim>\<open>pub_notes\<close>.\<close>

definition hashes_of_notes :: "(string \<times> string list) list \<Rightarrow> (string \<times> string list) list" where
  "hashes_of_notes d = map (\<lambda>(k, ns). (k, map note_hash_of ns)) d"

text \<open>
  The sort key that reconciliation uses for a book with the hash list \<open>hs\<close>: the start
  of the location range, the page number, or the same rank for every note when the first
  note has neither.
\<close>

definition book_key :: "tables \<Rightarrow> string list \<Rightarrow> string \<Rightarrow> int" where
  "book_key t hs h =
     (let loc0 = the (locations t (hd hs))
      in if contains loc0 ''loc. '' then range_key (the (locations t h))
         else if contains loc0 ''p.'' then page_key (the (locations t h))
         else 0)"

text \<open>
  \<open>reordered t d d'\<close>: the dictionary \<open>d'\<close> has the keys of \<open>d\<close> in the same order, and
  each of its lists is the list of \<open>d\<close> sorted by the key of the book, with equal keys in
  their old order.
\<close>

definition reordered ::
  "tables \<Rightarrow> (string \<times> string list) list \<Rightarrow> (string \<times> string list) list \<Rightarrow> bool" where
  "reordered t d d' =
     list_all2 (\<lambda>(k, hs) (k', hs'). k' = k \<and> hs' = sort_key (book_key t hs) hs) d d'"


text \<open>
  \<open>books_known t\<close>: no list of \<^verbatim>\<open>pub_hashes\<close> is empty and every hash in them is known.
  \<open>flagged t hs\<close> are the adjacent pairs of \<open>hs\<close> for which the overlap test succeeds.
\<close>

definition books_known :: "tables \<Rightarrow> bool" where
  "books_known t = list_all (\<lambda>(k, hs). hs \<noteq> [] \<and> list_all (known t) hs) (pub_hashes t)"


text \<open>
  \<open>tables_ok t\<close>: what holds of the tables whenever the main loop returns them. The four
  \<^verbatim>\<open>pub_*\<close> dictionaries have the same keys, the hash lists are the hashes of the note
  lists, every hash in them is known, and \<^verbatim>\<open>notes\<close> maps a hash to a text with that hash.
\<close>

definition tables_ok :: "tables \<Rightarrow> bool" where
  "tables_ok t =
     (map fst (pub_title t) = map fst (pub_hashes t) \<and>
      map fst (pub_author t) = map fst (pub_hashes t) \<and>
      map fst (pub_notes t) = map fst (pub_hashes t) \<and>
      distinct (map fst (pub_hashes t)) \<and>
      pub_hashes t = hashes_of_notes (pub_notes t) \<and>
      books_known t \<and>
      list_all (\<lambda>(k, hs). list_all (\<lambda>h. \<exists>text. notes_by_hash t h = Some text \<and> h = note_hash_of text) hs)
        (pub_hashes t))"

section \<open>Example data\<close>






section \<open>Properties of the similarity metric\<close>

lemma common_prefix_len_sym: "common_prefix_len xs ys = common_prefix_len ys xs"
  by (induction xs ys rule: common_prefix_len.induct) auto

lemma common_prefix_len_le: "common_prefix_len xs ys \<le> min (length xs) (length ys)"
  by (induction xs ys rule: common_prefix_len.induct) auto

lemma common_prefix_len_same: "common_prefix_len xs xs = length xs"
  by (induction xs) auto

lemma lcs_cell_sym: "lcs_cell a b i j = lcs_cell b a j i"
  by (simp add: lcs_cell_def common_prefix_len_sym)

lemma lcs_cell_0_left: "lcs_cell a b 0 j = 0"
  by (simp add: lcs_cell_def)

lemma lcs_cell_0_right: "lcs_cell a b i 0 = 0"
  by (simp add: lcs_cell_def common_prefix_len_sym [of _ "[]"])

lemma lcs_cell_Suc:
  "i < length a \<Longrightarrow> j < length b \<Longrightarrow>
   lcs_cell a b (Suc i) (Suc j) = (if a ! i = b ! j then Suc (lcs_cell a b i j) else 0)"
  by (simp add: lcs_cell_def take_Suc_conv_app_nth)

lemma lcs_cell_le: "lcs_cell a b i j \<le> min (length a) (length b)"
proof -
  have "lcs_cell a b i j \<le> min (length (rev (take i a))) (length (rev (take j b)))"
    unfolding lcs_cell_def by (rule common_prefix_len_le)
  then show ?thesis by simp
qed

lemma lcs_cell_diag: "lcs_cell a a (length a) (length a) = length a"
  by (simp add: lcs_cell_def common_prefix_len_same)

lemma inner_inv_step:
  assumes "inner_inv ai b prev best0 k cb" "k < length b"
  shows "inner_inv ai b prev best0 (Suc k) (lcs_inner_step ai b prev (Suc k) cb)"
proof -
  obtain cur best where cb: "cb = (cur, best)" by (cases cb)
  from assms(1) have len: "length cur = length b + 1"
    and vals: "\<forall>j \<le> length b. cur ! j = (if 1 \<le> j \<and> j \<le> k \<and> ai = b ! (j - 1) then prev ! (j - 1) + 1 else 0)"
    and lo: "best0 \<le> best" and ub: "\<forall>j \<le> k. cur ! j \<le> best"
    and att: "best = best0 \<or> (\<exists>j \<le> k. best = cur ! j)"
    unfolding inner_inv_def cb prod.case by blast+
  have curSk: "cur ! Suc k = 0" using vals assms(2) by simp
  show ?thesis
  proof (cases "ai = b ! k")
    case False
    then have st: "lcs_inner_step ai b prev (Suc k) cb = (cur, best)"
      by (simp add: lcs_inner_step_def cb)
    have v: "\<forall>j \<le> length b. cur ! j = (if 1 \<le> j \<and> j \<le> Suc k \<and> ai = b ! (j - 1) then prev ! (j - 1) + 1 else 0)"
    proof (intro allI impI)
      fix j assume j: "j \<le> length b"
      show "cur ! j = (if 1 \<le> j \<and> j \<le> Suc k \<and> ai = b ! (j - 1) then prev ! (j - 1) + 1 else 0)"
      proof (cases "j = Suc k")
        case True then show ?thesis using curSk False by simp
      next
        case F: False
        then have "(j \<le> Suc k) = (j \<le> k)" by auto
        then show ?thesis using vals j by simp
      qed
    qed
    have u: "\<forall>j \<le> Suc k. cur ! j \<le> best"
      using ub curSk by (auto simp: le_Suc_eq)
    have a: "best = best0 \<or> (\<exists>j \<le> Suc k. best = cur ! j)"
      using att by (auto simp: le_Suc_eq)
    show ?thesis unfolding st inner_inv_def using len v lo u a by simp
  next
    case True
    define v where "v = prev ! k + 1"
    define cur' where "cur' = cur[Suc k := v]"
    define best' where "best' = (if v > best then v else best)"
    have Sk: "Suc k < length cur" using len assms(2) by simp
    have c'Sk: "cur' ! Suc k = v" using Sk by (simp add: cur'_def)
    have st: "lcs_inner_step ai b prev (Suc k) cb = (cur', best')"
      using True c'Sk by (simp add: lcs_inner_step_def cb Let_def cur'_def best'_def v_def)
    have len': "length cur' = length b + 1" by (simp add: cur'_def len)
    have v': "\<forall>j \<le> length b. cur' ! j = (if 1 \<le> j \<and> j \<le> Suc k \<and> ai = b ! (j - 1) then prev ! (j - 1) + 1 else 0)"
    proof (intro allI impI)
      fix j assume j: "j \<le> length b"
      show "cur' ! j = (if 1 \<le> j \<and> j \<le> Suc k \<and> ai = b ! (j - 1) then prev ! (j - 1) + 1 else 0)"
      proof (cases "j = Suc k")
        case T: True then show ?thesis using c'Sk True by (simp add: v_def)
      next
        case F: False
        then have e: "(j \<le> Suc k) = (j \<le> k)" by auto
        have "cur' ! j = cur ! j" using F by (simp add: cur'_def)
        then show ?thesis using vals j e by simp
      qed
    qed
    have lo': "best0 \<le> best'" using lo by (simp add: best'_def)
    have u': "\<forall>j \<le> Suc k. cur' ! j \<le> best'"
    proof (intro allI impI)
      fix j assume j: "j \<le> Suc k"
      show "cur' ! j \<le> best'"
      proof (cases "j = Suc k")
        case T: True then show ?thesis using c'Sk by (simp add: best'_def)
      next
        case F: False
        then have "j \<le> k" using j by simp
        moreover have "cur' ! j = cur ! j" using F by (simp add: cur'_def)
        ultimately show ?thesis using ub by (simp add: best'_def) (meson le_trans less_imp_le)
      qed
    qed
    have a': "best' = best0 \<or> (\<exists>j \<le> Suc k. best' = cur' ! j)"
    proof (cases "v > best")
      case T: True
      then have "best' = cur' ! Suc k" using c'Sk by (simp add: best'_def)
      then show ?thesis by blast
    next
      case F: False
      then have b: "best' = best" by (simp add: best'_def)
      from att show ?thesis
      proof
        assume "best = best0" then show ?thesis using b by simp
      next
        assume "\<exists>j \<le> k. best = cur ! j"
        then obtain j where j: "j \<le> k" "best = cur ! j" by blast
        then have "cur' ! j = cur ! j" by (simp add: cur'_def)
        then show ?thesis using j b by (metis le_SucI)
      qed
    qed
    show ?thesis unfolding st inner_inv_def using len' v' lo' u' a' by simp
  qed
qed

lemma inner_inv_init: "inner_inv ai b prev best0 0 (replicate (length b + 1) 0, best0)"
  by (auto simp: inner_inv_def nth_Cons')

lemma inner_inv_fold:
  assumes "k \<le> length b"
  shows "inner_inv ai b prev best0 k
           (fold (lcs_inner_step ai b prev) [1..<k + 1] (replicate (length b + 1) 0, best0))"
  using assms
proof (induction k)
  case 0
  show ?case using inner_inv_init [of ai b prev best0] by simp
next
  case (Suc k)
  then have "k < length b" by simp
  with Suc have "inner_inv ai b prev best0 (Suc k)
      (lcs_inner_step ai b prev (Suc k)
        (fold (lcs_inner_step ai b prev) [1..<k + 1] (replicate (length b + 1) 0, best0)))"
    by (intro inner_inv_step) simp_all
  then show ?case by simp
qed

lemma outer_inv_init: "outer_inv a b 0 (replicate (length b + 1) 0, 0)"
  by (auto simp: outer_inv_def nth_Cons' lcs_cell_0_left)

lemma outer_inv_step:
  assumes inv: "outer_inv a b i pb" and i: "i < length a"
  shows "outer_inv a b (Suc i) (lcs_outer_step a b (Suc i) pb)"
proof -
  obtain prev best where pb: "pb = (prev, best)" by (cases pb)
  from inv have len: "length prev = length b + 1"
    and vals: "\<forall>j \<le> length b. prev ! j = lcs_cell a b i j"
    and ub: "\<forall>i' \<le> i. \<forall>j \<le> length b. lcs_cell a b i' j \<le> best"
    and att: "best = 0 \<or> (\<exists>i' \<le> i. \<exists>j \<le> length b. best = lcs_cell a b i' j)"
    unfolding outer_inv_def pb prod.case by blast+
  obtain cur best' where st: "lcs_outer_step a b (Suc i) pb = (cur, best')"
    by (cases "lcs_outer_step a b (Suc i) pb")
  have "inner_inv (a ! i) b prev best (length b) (lcs_outer_step a b (Suc i) pb)"
    using inner_inv_fold [of "length b" b "a ! i" prev best]
    by (simp add: lcs_outer_step_def pb)
  then have "inner_inv (a ! i) b prev best (length b) (cur, best')"
    by (simp only: st)
  then have len': "length cur = length b + 1"
    and vals': "\<forall>j \<le> length b. cur ! j =
        (if 1 \<le> j \<and> j \<le> length b \<and> a ! i = b ! (j - 1) then prev ! (j - 1) + 1 else 0)"
    and lo': "best \<le> best'" and ub': "\<forall>j \<le> length b. cur ! j \<le> best'"
    and att': "best' = best \<or> (\<exists>j \<le> length b. best' = cur ! j)"
    unfolding inner_inv_def prod.case by blast+
  have row: "cur ! j = lcs_cell a b (Suc i) j" if j: "j \<le> length b" for j
  proof (cases j)
    case 0
    then show ?thesis using vals' by (simp add: lcs_cell_0_right)
  next
    case (Suc j')
    then have j': "j' < length b" using j by simp
    have "prev ! j' = lcs_cell a b i j'" using vals j' by simp
    then show ?thesis using vals' j Suc i j' by (simp add: lcs_cell_Suc)
  qed
  have u: "\<forall>i' \<le> Suc i. \<forall>j \<le> length b. lcs_cell a b i' j \<le> best'"
  proof (intro allI impI)
    fix i' j assume i': "i' \<le> Suc i" and j: "j \<le> length b"
    show "lcs_cell a b i' j \<le> best'"
    proof (cases "i' = Suc i")
      case True
      moreover have "cur ! j \<le> best'" using ub' j by blast
      ultimately show ?thesis using row [OF j] by simp
    next
      case False
      then have "i' \<le> i" using i' by simp
      then have "lcs_cell a b i' j \<le> best" using ub j by simp
      then show ?thesis using lo' by simp
    qed
  qed
  have at: "best' = 0 \<or> (\<exists>i' \<le> Suc i. \<exists>j \<le> length b. best' = lcs_cell a b i' j)"
    using att'
  proof
    assume e: "best' = best"
    from att show ?thesis
    proof
      assume "best = 0" then show ?thesis using e by simp
    next
      assume "\<exists>i' \<le> i. \<exists>j \<le> length b. best = lcs_cell a b i' j"
      then obtain i' j where "i' \<le> i" "j \<le> length b" "best = lcs_cell a b i' j" by blast
      then have "i' \<le> Suc i \<and> j \<le> length b \<and> best' = lcs_cell a b i' j" using e by simp
      then show ?thesis by blast
    qed
  next
    assume "\<exists>j \<le> length b. best' = cur ! j"
    then obtain j where j: "j \<le> length b" "best' = cur ! j" by blast
    then have "Suc i \<le> Suc i \<and> j \<le> length b \<and> best' = lcs_cell a b (Suc i) j"
      using row by simp
    then show ?thesis by blast
  qed
  have r: "\<forall>j \<le> length b. cur ! j = lcs_cell a b (Suc i) j" using row by simp
  show ?thesis unfolding st outer_inv_def using len' r u at by simp
qed

lemma outer_inv_fold:
  assumes "i \<le> length a"
  shows "outer_inv a b i
           (fold (lcs_outer_step a b) [1..<i + 1] (replicate (length b + 1) 0, 0))"
  using assms
proof (induction i)
  case 0
  show ?case using outer_inv_init [of a b] by simp
next
  case (Suc i)
  then have "i < length a" by simp
  with Suc have "outer_inv a b (Suc i)
      (lcs_outer_step a b (Suc i)
        (fold (lcs_outer_step a b) [1..<i + 1] (replicate (length b + 1) 0, 0)))"
    by (intro outer_inv_step) simp_all
  then show ?case by simp
qed

lemma lcs_table_is_longest: "is_longest a b (lcs_table a b)"
proof -
  obtain prev best where f: "fold (lcs_outer_step a b) [1..<length a + 1] (replicate (length b + 1) 0, 0) = (prev, best)"
    by (cases "fold (lcs_outer_step a b) [1..<length a + 1] (replicate (length b + 1) 0, 0)")
  have "outer_inv a b (length a) (prev, best)"
    using outer_inv_fold [of "length a" a b] f by simp
  then have ub: "\<forall>i \<le> length a. \<forall>j \<le> length b. lcs_cell a b i j \<le> best"
    and att: "best = 0 \<or> (\<exists>i \<le> length a. \<exists>j \<le> length b. best = lcs_cell a b i j)"
    unfolding outer_inv_def prod.case by blast+
  have "\<exists>i \<le> length a. \<exists>j \<le> length b. best = lcs_cell a b i j"
    using att
  proof
    assume "best = 0"
    then have "0 \<le> length a \<and> 0 \<le> length b \<and> best = lcs_cell a b 0 0"
      by (simp add: lcs_cell_0_left)
    then show ?thesis by blast
  qed
  then show ?thesis using ub unfolding is_longest_def lcs_table_def f snd_conv by blast
qed

lemma is_longest_unique: "is_longest a b m \<Longrightarrow> is_longest a b n \<Longrightarrow> m = n"
  unfolding is_longest_def by (metis le_antisym)

lemma is_longest_sym: "is_longest a b m \<Longrightarrow> is_longest b a m"
  unfolding is_longest_def by (metis lcs_cell_sym)

lemma lcs_table_sym: "lcs_table a b = lcs_table b a"
  using is_longest_unique [OF lcs_table_is_longest is_longest_sym [OF lcs_table_is_longest]] .

lemma lcs_table_same: "lcs_table a a = length a"
proof -
  have l: "is_longest a a (lcs_table a a)" by (rule lcs_table_is_longest)
  have "lcs_cell a a (length a) (length a) \<le> lcs_table a a"
    using l unfolding is_longest_def by blast
  then have ge: "length a \<le> lcs_table a a" by (simp add: lcs_cell_diag)
  obtain i j where "lcs_table a a = lcs_cell a a i j"
    using l unfolding is_longest_def by blast
  then have "lcs_table a a \<le> length a" using lcs_cell_le [of a a i j] by simp
  then show ?thesis using ge by simp
qed

lemma lcs_table_Nil: "lcs_table a [] = 0"
proof -
  obtain i j where "lcs_table a [] = lcs_cell a [] i j"
    using lcs_table_is_longest [of a "[]"] unfolding is_longest_def by blast
  then show ?thesis using lcs_cell_le [of a "[]" i j] by simp
qed

text \<open>
  Claim C8. For all strings \<open>a\<close> and \<open>b\<close> the metric is symmetric; a string compared
  with itself gives its own length; and the result is 0 when either argument is the
  empty string.
\<close>

theorem lcs_metric_algebra:
  "longest_common_substring_len a b = longest_common_substring_len b a \<and>
   longest_common_substring_len a a = length a \<and>
   longest_common_substring_len [] b = 0 \<and>
   longest_common_substring_len a [] = 0"
proof -
  have "longest_common_substring_len a b = longest_common_substring_len b a"
    by (auto simp: longest_common_substring_len_def lcs_table_sym)
  moreover have "longest_common_substring_len a a = length a"
    by (simp add: longest_common_substring_len_def lcs_table_same)
  moreover have "longest_common_substring_len [] b = 0" "longest_common_substring_len a [] = 0"
    by (simp_all add: longest_common_substring_len_def)
  ultimately show ?thesis by blast
qed









section \<open>Shape of the content hash\<close>

lemma hex_digit_in: "hex_digit x \<in> set ''0123456789abcdef''"
proof -
  have "x AND 0xF \<le> 0xF" by (rule word_and_le1)
  then have "unat (x AND 0xF) \<le> unat (0xF :: 32 word)" by (simp add: word_le_nat_alt)
  then have "unat (x AND 0xF) < length ''0123456789abcdef''" by simp
  then show ?thesis unfolding hex_digit_def by (rule nth_mem)
qed

lemma length_hex32: "length (hex32 w) = 8"
  by (simp add: hex32_def)

lemma set_hex32: "set (hex32 w) \<subseteq> set ''0123456789abcdef''"
  unfolding hex32_def using hex_digit_in by auto

lemma take8_hexdigest: "take 8 (hexdigest s) = hex32 (fst s)"
proof -
  obtain a b c d e f g h where "s = (a, b, c, d, e, f, g, h)" by (metis prod.collapse)
  then show ?thesis by (simp add: hexdigest_def length_hex32)
qed

lemma length_note_hash_of: "length (note_hash_of text) = 8"
  by (simp add: note_hash_of_def take8_hexdigest length_hex32)

lemma set_note_hash_of: "set (note_hash_of text) \<subseteq> set ''0123456789abcdef''"
  unfolding note_hash_of_def take8_hexdigest by (rule set_hex32)

section \<open>What the parser maintains\<close>

lemma list_all_update:
  "list_all P al \<Longrightarrow> P (k, v) \<Longrightarrow> list_all P (AList.update k v al)"
  by (induction al) auto

lemma map_of_list_all:
  "list_all P al \<Longrightarrow> map_of al k = Some v \<Longrightarrow> P (k, v)"
  by (induction al) (auto split: if_splits)

lemma keys_append_at:
  "map fst (append_at key v d) =
     (if key \<in> set (map fst d) then map fst d else map fst d @ [key])"
  by (simp add: append_at_def update_keys)

lemma distinct_append_at: "distinct (map fst d) \<Longrightarrow> distinct (map fst (append_at key v d))"
  by (simp add: append_at_def distinct_update)

lemma map_of_hashes_of_notes:
  "map_of (hashes_of_notes d) key = map_option (map note_hash_of) (map_of d key)"
  by (induction d) (auto simp: hashes_of_notes_def)

lemma hashes_of_notes_update:
  "hashes_of_notes (AList.update key ns d) = AList.update key (map note_hash_of ns) (hashes_of_notes d)"
  by (induction d) (auto simp: hashes_of_notes_def)

lemma hashes_of_notes_append_at:
  "hashes_of_notes (append_at key text d) = append_at key (note_hash_of text) (hashes_of_notes d)"
  by (cases "map_of d key")
     (simp_all add: append_at_def hashes_of_notes_update map_of_hashes_of_notes)

lemma list_all_append_at:
  assumes "list_all (\<lambda>(k, vs). Q vs) d" and "Q [v]" and "\<And>vs. Q vs \<Longrightarrow> Q (vs @ [v])"
  shows "list_all (\<lambda>(k, vs). Q vs) (append_at key v d)"
proof -
  have "Q ((case map_of d key of None \<Rightarrow> [] | Some vs \<Rightarrow> vs) @ [v])"
  proof (cases "map_of d key")
    case None
    then show ?thesis using assms(2) by simp
  next
    case (Some vs)
    have "Q vs" using map_of_list_all [OF assms(1) Some] by simp
    then show ?thesis using Some assms(3) by simp
  qed
  then show ?thesis unfolding append_at_def using assms(1) by (intro list_all_update) simp_all
qed

lemma known_store_note:
  "known t h \<Longrightarrow> known (store_note t key title author text nh locstr ty d) h"
  by (simp add: known_def store_note_def)

lemma known_store_note_new:
  "known (store_note t key title author text nh locstr ty d) nh"
  by (simp add: known_def store_note_def)

lemma list_all_mono2:
  "list_all (\<lambda>(k, vs). list_all P vs) d \<Longrightarrow> (\<And>x. P x \<Longrightarrow> P' x) \<Longrightarrow>
   list_all (\<lambda>(k, vs). list_all P' vs) d"
  by (induction d) (auto simp: list_all_iff)

lemma tables_ok_store_note:
  assumes ok: "tables_ok t"
  shows "tables_ok (store_note t key title author text (note_hash_of text) locstr ty d)"
proof -
  let ?t = "store_note t key title author text (note_hash_of text) locstr ty d"
  let ?nh = "note_hash_of text"
  from ok have kt: "map fst (pub_title t) = map fst (pub_hashes t)"
    and ka: "map fst (pub_author t) = map fst (pub_hashes t)"
    and kn: "map fst (pub_notes t) = map fst (pub_hashes t)"
    and di: "distinct (map fst (pub_hashes t))"
    and hn: "pub_hashes t = hashes_of_notes (pub_notes t)"
    and bk: "books_known t"
    and co: "list_all (\<lambda>(k, hs). list_all (\<lambda>h. \<exists>text. notes_by_hash t h = Some text \<and> h = note_hash_of text) hs)
        (pub_hashes t)"
    unfolding tables_ok_def by blast+
  have ph: "pub_hashes ?t = append_at key ?nh (pub_hashes t)"
    and pn: "pub_notes ?t = append_at key text (pub_notes t)"
    and pt: "pub_title ?t = AList.update key (strip title) (pub_title t)"
    and pa: "pub_author ?t = AList.update key (strip author) (pub_author t)"
    and nt: "notes_by_hash ?t = (notes_by_hash t)(?nh \<mapsto> text)"
    by (simp_all add: store_note_def)
  have 1: "map fst (pub_title ?t) = map fst (pub_hashes ?t)"
    unfolding pt ph by (simp add: update_keys keys_append_at kt)
  have 2: "map fst (pub_author ?t) = map fst (pub_hashes ?t)"
    unfolding pa ph by (simp add: update_keys keys_append_at ka)
  have 3: "map fst (pub_notes ?t) = map fst (pub_hashes ?t)"
    unfolding pn ph by (simp add: keys_append_at kn)
  have 4: "distinct (map fst (pub_hashes ?t))"
    unfolding ph using di by (rule distinct_append_at)
  have 5: "pub_hashes ?t = hashes_of_notes (pub_notes ?t)"
    unfolding ph pn by (simp add: hashes_of_notes_append_at hn)
  have "list_all (\<lambda>(k, hs). hs \<noteq> [] \<and> list_all (known ?t) hs) (pub_hashes t)"
    using bk unfolding books_known_def
    by (fastforce simp: list_all_iff intro: known_store_note)
  then have "list_all (\<lambda>(k, hs). hs \<noteq> [] \<and> list_all (known ?t) hs) (append_at key ?nh (pub_hashes t))"
    by (rule list_all_append_at) (simp_all add: known_store_note_new)
  then have 6: "books_known ?t" unfolding books_known_def ph .
  have "list_all (\<lambda>(k, hs). list_all (\<lambda>h. \<exists>x. notes_by_hash ?t h = Some x \<and> h = note_hash_of x) hs)
          (pub_hashes t)"
    using co unfolding nt by (rule list_all_mono2) auto
  then have "list_all (\<lambda>(k, hs). list_all (\<lambda>h. \<exists>x. notes_by_hash ?t h = Some x \<and> h = note_hash_of x) hs)
          (append_at key ?nh (pub_hashes t))"
    by (rule list_all_append_at) (simp_all add: nt)
  then have 7: "list_all (\<lambda>(k, hs). list_all (\<lambda>h. \<exists>x. notes_by_hash ?t h = Some x \<and> h = note_hash_of x) hs)
          (pub_hashes ?t)"
    unfolding ph .
  show ?thesis unfolding tables_ok_def using 1 2 3 4 5 6 7 by blast
qed

lemma tables_ok_empty: "tables_ok empty_tables"
  by (simp add: tables_ok_def empty_tables_def hashes_of_notes_def books_known_def)

lemma parse_record_Returns:
  assumes "parse_record pd t key s = Returns (t', s')"
  shows "\<exists>title author raw locstr ty d.
           t' = store_note t key title author (normalize_text raw)
                  (note_hash_of (normalize_text raw)) locstr ty d"
proof -
  obtain l1 s1 where rl: "readline s = (l1, s1)" by (cases "readline s")
  show ?thesis
  proof (cases "regex_info (strip l1)")
    case None
    then show ?thesis using assms rl by (simp add: parse_record_def)
  next
    case (Some g)
    obtain ty loc d where g: "g = (ty, loc, d)" by (cases g)
    show ?thesis
    proof (cases "read_text [] (snd (readline s1))")
      case None
      then show ?thesis using assms rl Some g
        by (simp add: parse_record_def Let_def split: prod.splits)
    next
      case S: (Some rs)
      obtain raw s3 where rs: "rs = (raw, s3)" by (cases rs)
      obtain title author where ta:
        "(case regex_title key of Some ta \<Rightarrow> ta | None \<Rightarrow> (key, ''Unknown'')) = (title, author)"
        by (cases "case regex_title key of Some ta \<Rightarrow> ta | None \<Rightarrow> (key, ''Unknown'')")
      have "t' = store_note t key title author (normalize_text raw)
                  (note_hash_of (normalize_text raw))
                  (locstr_of (case regex_loc loc of Some g \<Rightarrow> g | None \<Rightarrow> [])
                             (case regex_page loc of Some g \<Rightarrow> g | None \<Rightarrow> []))
                  ty (case pd d of Some x \<Rightarrow> x | None \<Rightarrow> d)"
        using assms rl Some g S rs ta by (simp add: parse_record_def Let_def)
      then show ?thesis by blast
    qed
  qed
qed

lemma tables_ok_parse_record:
  "parse_record pd t key s = Returns (t', s') \<Longrightarrow> tables_ok t \<Longrightarrow> tables_ok t'"
  using parse_record_Returns tables_ok_store_note by blast

lemma tables_ok_parse_loop:
  "parse_loop pd t s = Returns t' \<Longrightarrow> tables_ok t \<Longrightarrow> tables_ok t'"
proof (induction pd t s rule: parse_loop.induct)
  case (1 pd t stream)
  obtain l s1 where rl: "readline stream = (l, s1)" by (cases "readline stream")
  show ?case
  proof (cases "strip l = []")
    case True
    then have "t' = t" using "1.prems"(1) rl by simp
    then show ?thesis using "1.prems"(2) by simp
  next
    case False
    show ?thesis
    proof (cases "parse_record pd t (strip l) s1")
      case (Returns r)
      obtain t1 s2 where r: "r = (t1, s2)" by (cases r)
      have "parse_loop pd t1 s2 = Returns t'" using "1.prems"(1) rl False Returns r by simp
      moreover have "tables_ok t1"
        using tables_ok_parse_record Returns r "1.prems"(2) by blast
      ultimately show ?thesis using "1.IH" [OF rl [symmetric] False Returns r [symmetric]] by simp
    next
      case (Raises e k)
      then show ?thesis using "1.prems"(1) rl False by simp
    next
      case Hangs
      then show ?thesis using "1.prems"(1) rl False by simp
    qed
  qed
qed

lemma tables_ok_parse_clippings:
  "parse_clippings pd content = Returns t \<Longrightarrow> tables_ok t"
  unfolding parse_clippings_def using tables_ok_parse_loop tables_ok_empty by blast

section \<open>Properties of reconciliation\<close>


lemma overlap_pair_cond:
  assumes n1: "notes_by_hash t hash1 = Some str1" and n2: "notes_by_hash t hash2 = Some str2"
    and t1: "types t hash1 = Some type1" and t2: "types t hash2 = Some type2"
    and l1: "locations t hash1 = Some loc1" and l2: "locations t hash2 = Some loc2"
  shows "overlap_pair t hash1 hash2 =
    Returns (type1 \<noteq> ''Bookmark'' \<and> type2 \<noteq> ''Bookmark'' \<and>
             (52 \<le> length str1 \<or> 52 \<le> length str2) \<and>
             (\<exists>a1 b1 a2 b2.
                 regex_numrange loc1 = Some (a1, b1) \<and> regex_numrange loc2 = Some (a2, b2) \<and>
                 (int_of_digits a1 = int_of_digits a2 \<or> int_of_digits a1 = int_of_digits b2 \<or>
                  int_of_digits b1 = int_of_digits a2 \<or> int_of_digits b1 = int_of_digits b2)) \<and>
             real (longest_common_substring_len str1 str2)
               > 0.4 * real (max (length str1) (length str2)))"
proof (cases "type1 = ''Bookmark''")
  case True
  then show ?thesis using n1 n2 t1 by (simp add: overlap_pair_def)
next
  case b1: False
  show ?thesis
  proof (cases "type2 = ''Bookmark'' \<or> max (length str1) (length str2) < 52")
    case True
    then have "overlap_pair t hash1 hash2 = Returns False"
      using n1 n2 t1 t2 b1 by (simp add: overlap_pair_def)
    moreover have "\<not> (type2 \<noteq> ''Bookmark'' \<and> (52 \<le> length str1 \<or> 52 \<le> length str2))"
      using True by auto
    ultimately show ?thesis by auto
  next
    case b2: False
    then have ty2: "type2 \<noteq> ''Bookmark''" and len: "52 \<le> length str1 \<or> 52 \<le> length str2"
      by auto
    show ?thesis
    proof (cases "regex_numrange loc1")
      case None
      then show ?thesis using n1 n2 t1 t2 l1 l2 b1 b2 by (simp add: overlap_pair_def)
    next
      case (Some r1)
      obtain a1 b1' where r1: "r1 = (a1, b1')" by (cases r1)
      show ?thesis
      proof (cases "regex_numrange loc2")
        case None
        then show ?thesis using n1 n2 t1 t2 l1 l2 b1 b2 Some r1
          by (simp add: overlap_pair_def)
      next
        case S2: (Some r2)
        obtain a2 b2' where r2: "r2 = (a2, b2')" by (cases r2)
        show ?thesis using n1 n2 t1 t2 l1 l2 b1 b2 Some r1 S2 r2
          by (auto simp: overlap_pair_def Let_def)
      qed
    qed
  qed
qed

lemma overlap_pair_known:
  assumes "known t h1" "known t h2"
  shows "\<exists>b. overlap_pair t h1 h2 = Returns b"
proof -
  from assms obtain s1 s2 y1 y2 l1 l2 where
    "notes_by_hash t h1 = Some s1" "notes_by_hash t h2 = Some s2"
    "types t h1 = Some y1" "types t h2 = Some y2"
    "locations t h1 = Some l1" "locations t h2 = Some l2"
    unfolding known_def by blast
  then show ?thesis using overlap_pair_cond by blast
qed

lemma overlap_loop_known:
  "list_all (known t) hs \<Longrightarrow> \<exists>fl. overlap_loop t hs = Returns fl"
proof (induction t hs rule: overlap_loop.induct)
  case (1 t hash1 hash2 hs)
  then have k: "known t hash1" "known t hash2" "list_all (known t) (hash2 # hs)" by simp_all
  obtain b where b: "overlap_pair t hash1 hash2 = Returns b"
    using overlap_pair_known [OF k(1,2)] by blast
  obtain fl where "overlap_loop t (hash2 # hs) = Returns fl"
    using "1.IH" [OF b k(3)] by blast
  then show ?case using b by simp
qed simp_all









lemma reordered_mset:
  "reordered t d d' \<Longrightarrow> list_all2 (\<lambda>(k, hs) (k', hs'). mset hs' = mset hs) d d'"
  unfolding reordered_def by (induction d d' rule: list_all2_induct) auto

lemma reordered_stable:
  "reordered t d d' \<Longrightarrow>
   list_all2 (\<lambda>(k, hs) (k', hs').
      sorted (map (book_key t hs) hs') \<and>
      (\<forall>v. filter (\<lambda>h. book_key t hs h = v) hs' = filter (\<lambda>h. book_key t hs h = v) hs)) d d'"
  unfolding reordered_def
  by (induction d d' rule: list_all2_induct) (auto simp: sort_key_stable)

subsection \<open>The location branch\<close>









subsection \<open>Reconciliation only reorders\<close>








subsection \<open>Overlap detection\<close>








section \<open>The parser on the example records\<close>







section \<open>Malformed records and unparsable dates\<close>












end
